theory Spec2Isabelle
  imports Main
begin

section \<open>Errors and outcomes\<close>

text \<open>
  The class \<open>AppError\<close> of \<open>index.ts\<close>: an error value carrying a message, a
  classification code, a status code and the operational flag. Numbers are modelled as
  \<open>int\<close> (the integral values of a JavaScript number); an optional field of an
  options object is an \<open>option\<close>, with \<open>None\<close> for a field that is not supplied.
\<close>

record app_error =
  message :: string
  code :: string
  statusCode :: int
  isOperational :: bool

record app_error_options =
  opt_code :: "string option"
  opt_statusCode :: "int option"
  opt_isOperational :: "bool option"

text \<open>
  JavaScript's \<open>v || d\<close> on an optional number: the default \<open>d\<close> is taken when the
  field is missing and also when it is the falsy number \<open>0\<close>. On an optional string
  the falsy value is the empty string.
\<close>

definition or_default :: "int option \<Rightarrow> int \<Rightarrow> int" where
  "or_default v d = (case v of None \<Rightarrow> d | Some n \<Rightarrow> if n = 0 then d else n)"

definition or_default_str :: "string option \<Rightarrow> string \<Rightarrow> string" where
  "or_default_str v d = (case v of None \<Rightarrow> d | Some s \<Rightarrow> if s = [] then d else s)"

text \<open>The constructor of \<open>AppError\<close>.\<close>

definition new_AppError :: "string \<Rightarrow> app_error_options \<Rightarrow> app_error" where
  "new_AppError msg options =
     \<lparr> message = msg,
       code = or_default_str (opt_code options) ''INTERNAL_ERROR'',
       statusCode = or_default (opt_statusCode options) 500,
       isOperational = (case opt_isOperational options of Some False \<Rightarrow> False | _ \<Rightarrow> True) \<rparr>"

text \<open>
  A value a task can fail with: an \<open>AppError\<close> or any other thrown value, the latter
  left abstract. The outcome of a task is \<open>Inl\<close> of the failure or \<open>Inr\<close> of the value.
\<close>

datatype 'x error = AppError app_error | Foreign 'x

text \<open>
  A promise under construction is \<open>None\<close> while pending and \<open>Some\<close> of its outcome
  once settled. Its \<open>resolve\<close> and \<open>reject\<close> functions settle it once: a later call
  leaves the first outcome in place.
\<close>

definition settle :: "'o \<Rightarrow> 'o option \<Rightarrow> 'o option" where
  "settle out p = (case p of None \<Rightarrow> Some out | Some first \<Rightarrow> Some first)"

section \<open>withCancel\<close>

text \<open>
  \<open>withCancel\<close> keeps the flag \<open>isCancelled\<close> and the promise it returns. Two things can
  happen to it afterwards: the caller invokes \<open>cancel()\<close>, or the underlying promise
  settles and the callbacks registered with \<open>then\<close> run. The state machine below takes
  these events in the order in which the event loop delivers them.
\<close>

record ('x, 'a) cancellable =
  isCancelled :: bool
  wrappedPromise :: "('x error + 'a) option"

datatype ('x, 'a) cancel_event = Cancel | Settled "'x error + 'a"

definition cancelled_error :: "'x error" where
  "cancelled_error =
     AppError (new_AppError ''Operation cancelled''
       \<lparr> opt_code = Some ''CANCELLED'', opt_statusCode = None, opt_isOperational = None \<rparr>)"

definition withCancel :: "('x, 'a) cancellable" where
  "withCancel = \<lparr> isCancelled = False, wrappedPromise = None \<rparr>"

fun cancel_step :: "('x, 'a) cancellable \<Rightarrow> ('x, 'a) cancel_event \<Rightarrow> ('x, 'a) cancellable" where
  "cancel_step s Cancel = s\<lparr> isCancelled := True \<rparr>"
| "cancel_step s (Settled (Inr v)) =
     (if isCancelled s
      then s\<lparr> wrappedPromise := settle (Inl cancelled_error) (wrappedPromise s) \<rparr>
      else s\<lparr> wrappedPromise := settle (Inr v) (wrappedPromise s) \<rparr>)"
| "cancel_step s (Settled (Inl e)) =
     s\<lparr> wrappedPromise := settle (Inl e) (wrappedPromise s) \<rparr>"

definition run_cancel :: "('x, 'a) cancel_event list \<Rightarrow> ('x, 'a) cancellable" where
  "run_cancel evs = foldl cancel_step withCancel evs"

section \<open>withTimeout\<close>

text \<open>
  \<open>withTimeout\<close> arms a timer of \<open>ms\<close> milliseconds and registers callbacks on the
  promise. The state holds the pending timer (\<open>None\<close> once it has fired or has been
  cleared) and the returned promise. The events are the firing of the timer and the
  settlement of the wrapped promise, whose \<open>then\<close>, \<open>catch\<close> and \<open>finally\<close>
  callbacks run together before any timer callback can.
\<close>

record ('x, 'a) timeout_state =
  timeoutId :: "int option"
  returned :: "('x error + 'a) option"

datatype ('x, 'a) timeout_event = Timer_fires | Task_settles "'x error + 'a"

definition timeout_error :: "string \<Rightarrow> 'x error" where
  "timeout_error msg =
     AppError (new_AppError msg
       \<lparr> opt_code = Some ''TIMEOUT'', opt_statusCode = Some 408, opt_isOperational = Some True \<rparr>)"

definition withTimeout :: "int \<Rightarrow> ('x, 'a) timeout_state" where
  "withTimeout ms = \<lparr> timeoutId = Some ms, returned = None \<rparr>"

fun timeout_step ::
  "string \<Rightarrow> ('x, 'a) timeout_state \<Rightarrow> ('x, 'a) timeout_event \<Rightarrow> ('x, 'a) timeout_state" where
  "timeout_step msg s Timer_fires =
     (case timeoutId s of
        None \<Rightarrow> s
      | Some ms \<Rightarrow> \<lparr> timeoutId = None, returned = settle (Inl (timeout_error msg)) (returned s) \<rparr>)"
| "timeout_step msg s (Task_settles out) =
     \<lparr> timeoutId = None, returned = settle out (returned s) \<rparr>"

definition run_timeout ::
  "int \<Rightarrow> string \<Rightarrow> ('x, 'a) timeout_event list \<Rightarrow> ('x, 'a) timeout_state" where
  "run_timeout ms msg evs = foldl (timeout_step msg) (withTimeout ms) evs"

section \<open>retry\<close>

text \<open>
  The options of \<open>retry\<close>. The field \<open>onRetry\<close> says whether the callback is supplied;
  what it is called with is recorded in the log of the run. The callback is taken to
  return normally.
\<close>

record retry_options =
  attempts :: "int option"
  delay :: "int option"
  backoff :: "bool option"
  onRetry :: bool

text \<open>
  What a run of \<open>retry\<close> does, in order: calls of \<open>fn\<close> (tagged with the attempt they
  belong to), calls of \<open>onRetry\<close> with their two arguments, and suspensions with the
  number of milliseconds handed to \<open>setTimeout\<close>.
\<close>

datatype 'x retry_event = Call_fn int | Call_onRetry int "'x error" | Sleep int

text \<open>
  The \<open>for\<close> loop. \<open>fn\<close> is called once in every iteration, so its behaviour is given
  by the outcome of the call made in each attempt: \<open>fn k\<close> is how the call of
  attempt \<open>k\<close> settles (a synchronous throw and a rejection are caught alike).
  \<open>lastError\<close> is unassigned (\<open>None\<close>) until the first failure; the final \<open>throw\<close>
  raises whatever it holds. The parameters \<open>n\<close>, \<open>d\<close>, \<open>b\<close> and \<open>cb\<close> are the
  constants \<open>attempts\<close>, \<open>delay\<close>, \<open>backoff\<close> and \<open>onRetry\<close> of the source (whose names
  the fields of the options have here).
\<close>

function retry_loop ::
  "(int \<Rightarrow> 'x error + 'a) \<Rightarrow> int \<Rightarrow> int \<Rightarrow> bool \<Rightarrow> bool \<Rightarrow> int \<Rightarrow> 'x error option
     \<Rightarrow> 'x retry_event list \<Rightarrow> 'x retry_event list \<times> ('x error option + 'a)" where
  "retry_loop fn n d b cb attempt lastError log =
     (if attempt \<le> n then
        (case fn attempt of
           Inr v \<Rightarrow> (log @ [Call_fn attempt], Inr v)
         | Inl err \<Rightarrow>
             (if attempt < n then
                (let waitTime = (if b then d * 2 ^ nat (attempt - 1) else d)
                 in retry_loop fn n d b cb (attempt + 1) (Some err)
                      (log @ [Call_fn attempt]
                           @ (if cb then [Call_onRetry attempt err] else [])
                           @ [Sleep waitTime]))
              else retry_loop fn n d b cb (attempt + 1) (Some err) (log @ [Call_fn attempt])))
      else (log, Inl lastError))"
  by pat_completeness auto
termination
  by (relation "measure (\<lambda>(fn, n, d, b, cb, attempt, lastError, log). nat (n + 1 - attempt))") auto

definition retry ::
  "(int \<Rightarrow> 'x error + 'a) \<Rightarrow> retry_options \<Rightarrow> 'x retry_event list \<times> ('x error option + 'a)" where
  "retry fn options =
     retry_loop fn
       (or_default (attempts options) 3)
       (or_default (delay options) 1000)
       (case backoff options of Some False \<Rightarrow> False | _ \<Rightarrow> True)
       (onRetry options)
       1 None []"

section \<open>batch\<close>

text \<open>
  \<open>Array.prototype.slice\<close> with integral arguments: a negative index counts from the
  end, both indices are clamped to the array, and an empty range gives the empty array.
\<close>

definition js_slice :: "'a list \<Rightarrow> int \<Rightarrow> int \<Rightarrow> 'a list" where
  "js_slice xs start final =
     (let len = int (length xs);
          k = (if start < 0 then max (len + start) 0 else min start len);
          e = (if final < 0 then max (len + final) 0 else min final len)
      in take (nat (max (e - k) 0)) (drop (nat k) xs))"

text \<open>
  The processor returns a promise for each item; the promise is described by the time
  it takes to settle and by its outcome. \<open>Promise.all\<close> rejects with the rejection that
  happens first (the earlier position for two at the same time) and otherwise fulfils
  with the values in the order of the promises.
\<close>

fun first_rejection :: "(nat \<times> ('e + 'r)) list \<Rightarrow> (nat \<times> 'e) option" where
  "first_rejection [] = None"
| "first_rejection ((t, Inr v) # ps) = first_rejection ps"
| "first_rejection ((t, Inl e) # ps) =
     (case first_rejection ps of
        None \<Rightarrow> Some (t, e)
      | Some (t', e') \<Rightarrow> if t' < t then Some (t', e') else Some (t, e))"

fun fulfilled :: "(nat \<times> ('e + 'r)) list \<Rightarrow> 'r list" where
  "fulfilled [] = []"
| "fulfilled ((t, Inr v) # ps) = v # fulfilled ps"
| "fulfilled ((t, Inl e) # ps) = fulfilled ps"

definition promise_all :: "(nat \<times> ('e + 'r)) list \<Rightarrow> 'e + 'r list" where
  "promise_all ps =
     (case first_rejection ps of Some (t, e) \<Rightarrow> Inl e | None \<Rightarrow> Inr (fulfilled ps))"

text \<open>
  The options of \<open>batch\<close>; the fields \<open>size\<close> and \<open>delay\<close> of the source are
  \<open>batch_size\<close> and \<open>batch_delay\<close> here.
\<close>

record batch_options =
  batch_size :: "int option"
  batch_delay :: "int option"
  concurrency :: "int option"

text \<open>
  What a run of \<open>batch\<close> does, in order: for each group, the slice on whose items the
  processor is invoked, and the suspensions between groups.
\<close>

datatype 'a batch_event = Process "'a list" | Pause int

text \<open>
  The \<open>for\<close> loop of \<open>batch\<close>; \<open>sz\<close> and \<open>dl\<close> are the constants \<open>size\<close> and
  \<open>delay\<close> of the source. With a negative \<open>size\<close> the index never reaches the length
  of a non-empty array and the loop does not end, so the loop is a partial function:
  \<open>None\<close> stands for a run that never returns.
\<close>

partial_function (option) batch_loop ::
  "'a list \<Rightarrow> ('a \<Rightarrow> nat \<times> ('e + 'r)) \<Rightarrow> int \<Rightarrow> int \<Rightarrow> int \<Rightarrow> 'r list \<Rightarrow> 'a batch_event list
     \<Rightarrow> ('a batch_event list \<times> ('e + 'r list)) option" where
  "batch_loop items processor sz dl i results log =
     (if i < int (length items) then
        (let batch = js_slice items i (i + sz);
             log1 = log @ [Process batch]
         in case promise_all (map processor batch) of
              Inl e \<Rightarrow> Some (log1, Inl e)
            | Inr batchResults \<Rightarrow>
                batch_loop items processor sz dl (i + sz) (results @ batchResults)
                  (if dl > 0 \<and> i + sz < int (length items) then log1 @ [Pause dl] else log1))
      else Some (log, Inr results))"

text \<open>\<open>concurrency\<close> is read from the options and never used.\<close>

definition batch ::
  "'a list \<Rightarrow> ('a \<Rightarrow> nat \<times> ('e + 'r)) \<Rightarrow> batch_options
     \<Rightarrow> ('a batch_event list \<times> ('e + 'r list)) option" where
  "batch items processor options =
     batch_loop items processor
       (or_default (batch_size options) 10)
       (or_default (batch_delay options) 0)
       0 [] []"

section \<open>rateLimit\<close>

text \<open>
  The state shared by the closures of one dispatcher: the queue of pending calls, the
  counter \<open>callsMade\<close> and whether the interval timer exists. A queue entry is the
  number of the call it belongs to (standing for its \<open>resolve\<close> and \<open>reject\<close>) with
  its arguments. Three further fields record what has happened: the invocations of
  \<open>fn\<close> issued so far, the calls whose invocation has not settled yet, and the outcomes
  delivered to callers.
\<close>

record ('args, 'x, 'a) limiter =
  queue :: "(nat \<times> 'args) list"
  callsMade :: int
  interval :: bool
  issued :: "(nat \<times> 'args) list"
  in_flight :: "nat list"
  delivered :: "(nat \<times> ('x error + 'a)) list"
  arrived :: nat

text \<open>
  The part of \<open>processQueue\<close> up to its \<open>await\<close>: nothing when the queue is empty or
  the window is used up, otherwise the head of the queue is taken, counted, and \<open>fn\<close> is
  invoked on its arguments. \<open>fn\<close> returns a promise, as its type says, so the function
  is suspended at the \<open>await\<close> until that promise settles.
\<close>

definition processQueue ::
  "int \<Rightarrow> ('args, 'x, 'a) limiter \<Rightarrow> ('args, 'x, 'a) limiter" where
  "processQueue maxCalls s =
     (if length (queue s) = 0 \<or> maxCalls \<le> callsMade s then s
      else (case queue s of
              [] \<Rightarrow> s
            | entry # rest \<Rightarrow>
                s\<lparr> queue := rest,
                   callsMade := callsMade s + 1,
                   issued := issued s @ [entry],
                   in_flight := in_flight s @ [fst entry] \<rparr>))"

text \<open>
  The part of \<open>processQueue\<close> after its \<open>await\<close>, run when the invocation made for
  call \<open>c\<close> settles: the outcome goes to that caller, and if the queue is not empty
  \<open>processQueue\<close> is called again.
\<close>

definition resume ::
  "int \<Rightarrow> nat \<Rightarrow> 'x error + 'a \<Rightarrow> ('args, 'x, 'a) limiter \<Rightarrow> ('args, 'x, 'a) limiter" where
  "resume maxCalls c out s =
     (let s1 = s\<lparr> in_flight := remove1 c (in_flight s), delivered := delivered s @ [(c, out)] \<rparr>
      in if length (queue s1) > 0 then processQueue maxCalls s1 else s1)"

definition resetCalls ::
  "int \<Rightarrow> ('args, 'x, 'a) limiter \<Rightarrow> ('args, 'x, 'a) limiter" where
  "resetCalls maxCalls s = processQueue maxCalls (s\<lparr> callsMade := 0 \<rparr>)"

text \<open>The function returned by \<open>rateLimit\<close>, called with \<open>args\<close>.\<close>

definition dispatch ::
  "int \<Rightarrow> 'args \<Rightarrow> ('args, 'x, 'a) limiter \<Rightarrow> ('args, 'x, 'a) limiter" where
  "dispatch maxCalls args s =
     (let s1 = s\<lparr> queue := queue s @ [(arrived s, args)], arrived := Suc (arrived s) \<rparr>;
          s2 = (if interval s1 then s1 else s1\<lparr> interval := True \<rparr>)
      in processQueue maxCalls s2)"

definition rateLimit :: "('args, 'x, 'a) limiter" where
  "rateLimit =
     \<lparr> queue = [], callsMade = 0, interval = False, issued = [], in_flight = [],
       delivered = [], arrived = 0 \<rparr>"

text \<open>
  The events of the event loop that concern a dispatcher: a call of the returned
  function, a tick of the interval timer (which exists only after the first call), and
  the settlement of an invocation of \<open>fn\<close> that is in flight.
\<close>

datatype ('args, 'x, 'a) limiter_event =
  Call 'args | Tick | Completes nat "'x error + 'a"

fun limiter_step ::
  "int \<Rightarrow> ('args, 'x, 'a) limiter \<Rightarrow> ('args, 'x, 'a) limiter_event \<Rightarrow> ('args, 'x, 'a) limiter" where
  "limiter_step maxCalls s (Call args) = dispatch maxCalls args s"
| "limiter_step maxCalls s Tick = (if interval s then resetCalls maxCalls s else s)"
| "limiter_step maxCalls s (Completes c out) =
     (if c \<in> set (in_flight s) then resume maxCalls c out s else s)"

definition run_limiter ::
  "int \<Rightarrow> ('args, 'x, 'a) limiter_event list \<Rightarrow> ('args, 'x, 'a) limiter" where
  "run_limiter maxCalls evs = foldl (limiter_step maxCalls) rateLimit evs"

section \<open>Vocabulary of the properties\<close>

text \<open>
  What the log of \<open>retry\<close> shows for a failed attempt \<open>j\<close> that is followed by
  another one: the call of \<open>fn\<close>, the call of \<open>onRetry\<close> with \<open>j\<close> and the error
  of that attempt when the callback is supplied, and the suspension.
\<close>

abbreviation failed_round ::
  "int \<Rightarrow> bool \<Rightarrow> bool \<Rightarrow> (int \<Rightarrow> 'x error) \<Rightarrow> int \<Rightarrow> 'x retry_event list" where
  "failed_round d b cb e j \<equiv>
     [Call_fn j] @ (if cb then [Call_onRetry j (e j)] else [])
       @ [Sleep (if b then d * 2 ^ nat (j - 1) else d)]"

text \<open>
  Following the spec's words, the partition of a list into contiguous groups of \<open>n\<close>
  items, the last group possibly smaller.
\<close>

function groups :: "nat \<Rightarrow> 'a list \<Rightarrow> 'a list list" where
  "groups n xs = (if n = 0 \<or> xs = [] then [] else take n xs # groups n (drop n xs))"
  by pat_completeness auto
termination
  by (relation "measure (\<lambda>(n, xs). length xs)") auto

text \<open>
  What the log of \<open>batch\<close> shows when the given groups are processed one after the
  other: each group in turn, with a suspension between two groups when the delay is
  positive and none after the last group.
\<close>

fun batch_trace :: "int \<Rightarrow> 'a list list \<Rightarrow> 'a batch_event list" where
  "batch_trace dl [] = []"
| "batch_trace dl [g] = [Process g]"
| "batch_trace dl (g # gs) =
     Process g # (if dl > 0 then [Pause dl] else []) @ batch_trace dl gs"

text \<open>
  The loop of \<open>batch\<close> read as a recursion over the list of groups still to be
  processed; \<open>batch_loop_run_groups\<close> below proves that the loop computes it.
\<close>

fun run_groups ::
  "('a \<Rightarrow> nat \<times> ('e + 'r)) \<Rightarrow> int \<Rightarrow> 'a list list \<Rightarrow> 'r list \<Rightarrow> 'a batch_event list
     \<Rightarrow> 'a batch_event list \<times> ('e + 'r list)" where
  "run_groups processor dl [] results log = (log, Inr results)"
| "run_groups processor dl (g # gs) results log =
     (case promise_all (map processor g) of
        Inl e \<Rightarrow> (log @ [Process g], Inl e)
      | Inr batchResults \<Rightarrow>
          run_groups processor dl gs (results @ batchResults)
            (if dl > 0 \<and> gs \<noteq> [] then log @ [Process g] @ [Pause dl] else log @ [Process g]))"

text \<open>
  The invariant of a dispatcher: the counter stays between \<open>0\<close> and \<open>maxCalls\<close>, and
  nothing has been counted or issued before the first call creates the timer.
\<close>

definition limiter_inv :: "int \<Rightarrow> ('args, 'x, 'a) limiter \<Rightarrow> bool" where
  "limiter_inv maxCalls s =
     (0 \<le> callsMade s \<and> callsMade s \<le> maxCalls
      \<and> (interval s \<or> (callsMade s = 0 \<and> in_flight s = [] \<and> queue s = [])))"

declare retry_loop.simps [simp del]

declare groups.simps [simp del]

section \<open>Properties of withCancel\<close>

lemma settle_Some [simp]: "settle out (Some first) = Some first"
  by (simp add: settle_def)

lemma settle_None [simp]: "settle out None = Some out"
  by (simp add: settle_def)

lemma cancel_steps_settled:
  "wrappedPromise s = Some out \<Longrightarrow> wrappedPromise (foldl cancel_step s evs) = Some out"
proof (induction evs arbitrary: s)
  case Nil
  then show ?case by simp
next
  case (Cons ev evs)
  have "wrappedPromise (cancel_step s ev) = Some out"
    using Cons.prems by (cases "(s, ev)" rule: cancel_step.cases) auto
  then show ?case using Cons.IH by simp
qed

lemma cancel_steps_cancels:
  "wrappedPromise (foldl cancel_step s (replicate m Cancel)) = wrappedPromise s \<and>
   isCancelled (foldl cancel_step s (replicate m Cancel)) = (isCancelled s \<or> 0 < m)"
  by (induction m arbitrary: s) auto

lemma cancelled_error_code:
  "cancelled_error = AppError \<lparr> message = ''Operation cancelled'', code = ''CANCELLED'',
      statusCode = 500, isOperational = True \<rparr>"
  by (simp add: cancelled_error_def new_AppError_def or_default_def or_default_str_def)

text \<open>
  Claim C1, as the code has it. Let \<open>cancel()\<close> be invoked \<open>m\<close> times before the
  callbacks of the underlying promise run. If it has been invoked (\<open>m > 0\<close>) and the
  underlying promise fulfils, the returned promise rejects with the \<open>AppError\<close> whose
  code is \<open>CANCELLED\<close>. If the underlying promise rejects, the returned promise rejects
  with that same error, cancelled or not. Whatever happens afterwards (\<open>rest\<close>) does not
  change the outcome.
\<close>

theorem withCancel_cancel_before_settlement:
  fixes v :: 'a and e :: "'x error" and rest :: "('x, 'a) cancel_event list"
  shows "(0 < m \<longrightarrow>
            wrappedPromise (run_cancel (replicate m Cancel @ Settled (Inr v) # rest)) =
              Some (Inl cancelled_error))
       \<and> wrappedPromise (run_cancel (replicate m Cancel @ Settled (Inl e) # rest)) = Some (Inl e)
       \<and> (\<exists>a. (cancelled_error :: 'x error) = AppError a \<and> code a = ''CANCELLED'')"
proof -
  let ?s = "foldl cancel_step withCancel (replicate m Cancel) :: ('x, 'a) cancellable"
  have s: "wrappedPromise ?s = None" "isCancelled ?s = (0 < m)"
    using cancel_steps_cancels [of "withCancel :: ('x, 'a) cancellable" m]
    by (simp_all add: withCancel_def)
  have "wrappedPromise (cancel_step ?s (Settled (Inl e))) = Some (Inl e)"
    using s by simp
  then have rejected:
    "wrappedPromise (foldl cancel_step (cancel_step ?s (Settled (Inl e))) rest) = Some (Inl e)"
    by (rule cancel_steps_settled)
  have fulfilled: "wrappedPromise (foldl cancel_step (cancel_step ?s (Settled (Inr v))) rest) =
      Some (Inl cancelled_error)" if "0 < m"
  proof -
    have "wrappedPromise (cancel_step ?s (Settled (Inr v))) = Some (Inl cancelled_error)"
      using s that by simp
    then show ?thesis by (rule cancel_steps_settled)
  qed
  show ?thesis
    using rejected fulfilled by (simp add: run_cancel_def cancelled_error_code)
qed

theorem withCancel_cancel_before_settlement_witness:
  "wrappedPromise (run_cancel [Cancel, Settled (Inr (7::nat)), Cancel] :: (unit, nat) cancellable)
     = Some (Inl cancelled_error)
   \<and> wrappedPromise (run_cancel [Cancel, Settled (Inl (Foreign ())), Cancel] :: (unit, nat) cancellable)
     = Some (Inl (Foreign ()))"
  using withCancel_cancel_before_settlement [of 1 "7::nat" "[Cancel]" "Foreign ()"]
  by simp

text \<open>
  Claim C1 as stated fails when the underlying promise rejects: after \<open>cancel()\<close> the
  returned promise still rejects with the underlying error, here one classified
  \<open>NOT_FOUND\<close>, and not with the \<open>CANCELLED\<close> error.
\<close>

theorem withCancel_failure_not_cancelled:
  "wrappedPromise
     (run_cancel
        [Cancel,
         Settled (Inl (AppError \<lparr> message = ''User not found'', code = ''NOT_FOUND'',
                                    statusCode = 404, isOperational = True \<rparr>))]
      :: (unit, nat) cancellable) =
     Some (Inl (AppError \<lparr> message = ''User not found'', code = ''NOT_FOUND'',
                             statusCode = 404, isOperational = True \<rparr>))
   \<and> AppError \<lparr> message = ''User not found'', code = ''NOT_FOUND'',
                  statusCode = 404, isOperational = True \<rparr> \<noteq> (cancelled_error :: unit error)
   \<and> code \<lparr> message = ''User not found'', code = ''NOT_FOUND'',
             statusCode = 404, isOperational = True \<rparr> \<noteq> ''CANCELLED''"
  by (simp add: run_cancel_def withCancel_def cancelled_error_code)

section \<open>Properties of retry\<close>

lemma retry_loop_fail_more:
  assumes "fn a = Inl err" and "a < n"
  shows "retry_loop fn n d b cb a le log =
           retry_loop fn n d b cb (a + 1) (Some err)
             (log @ [Call_fn a] @ (if cb then [Call_onRetry a err] else [])
                  @ [Sleep (if b then d * 2 ^ nat (a - 1) else d)])"
  using assms by (simp add: retry_loop.simps [of fn n d b cb a le log])

lemma retry_loop_fail_last:
  assumes "fn n = Inl err"
  shows "retry_loop fn n d b cb n le log = (log @ [Call_fn n], Inl (Some err))"
proof -
  have "retry_loop fn n d b cb n le log =
          retry_loop fn n d b cb (n + 1) (Some err) (log @ [Call_fn n])"
    using assms by (simp add: retry_loop.simps [of fn n d b cb n le log])
  also have "\<dots> = (log @ [Call_fn n], Inl (Some err))"
    by (simp add: retry_loop.simps [of fn n d b cb "n + 1"])
  finally show ?thesis .
qed

lemma retry_loop_success:
  assumes "fn a = Inr v" and "a \<le> n"
  shows "retry_loop fn n d b cb a le log = (log @ [Call_fn a], Inr v)"
  using assms by (simp add: retry_loop.simps [of fn n d b cb a le log])

lemma retry_loop_failures:
  assumes "\<forall>j. a \<le> j \<and> j \<le> k \<longrightarrow> fn j = Inl (e j)" and "k < n" and "a \<le> k"
  shows "retry_loop fn n d b cb a le log =
           retry_loop fn n d b cb (k + 1) (Some (e k))
             (log @ concat (map (failed_round d b cb e) [a..k]))"
  using assms
proof (induction "nat (k - a)" arbitrary: a le log)
  case 0
  then have "a = k" by simp
  then show ?case
    using "0.prems" retry_loop_fail_more [of fn k "e k" n d b cb le log] by simp
next
  case (Suc m)
  then have ak: "a < k" by linarith
  have step: "retry_loop fn n d b cb a le log =
      retry_loop fn n d b cb (a + 1) (Some (e a)) (log @ failed_round d b cb e a)"
    using Suc.prems ak retry_loop_fail_more [of fn a "e a" n d b cb le log] by simp
  have "retry_loop fn n d b cb (a + 1) (Some (e a)) (log @ failed_round d b cb e a) =
      retry_loop fn n d b cb (k + 1) (Some (e k))
        ((log @ failed_round d b cb e a) @ concat (map (failed_round d b cb e) [a + 1..k]))"
    using Suc.hyps(2) Suc.prems ak by (intro Suc.hyps(1)) auto
  moreover have "[a..k] = a # [a + 1..k]"
    using ak by (simp add: upto_rec1)
  ultimately show ?case using step by simp
qed

lemma retry_loop_log_prefix:
  "\<exists>rest. fst (retry_loop fn n d b cb a le log) = log @ rest"
proof (induction fn n d b cb a le log rule: retry_loop.induct)
  case (1 fn n d b cb attempt lastError log)
  show ?case
  proof (cases "attempt \<le> n")
    case False
    then show ?thesis by (simp add: retry_loop.simps [of fn n d b cb attempt lastError log])
  next
    case le: True
    show ?thesis
    proof (cases "fn attempt")
      case (Inr v)
      then show ?thesis using le retry_loop_success [of fn attempt v n d b cb lastError log] by simp
    next
      case (Inl err)
      show ?thesis
      proof (cases "attempt < n")
        case True
        from "1.IH"(1) [OF le Inl True refl]
        obtain rest where "fst (retry_loop fn n d b cb (attempt + 1) (Some err)
              (log @ [Call_fn attempt] @ (if cb then [Call_onRetry attempt err] else [])
                 @ [Sleep (if b then d * 2 ^ nat (attempt - 1) else d)])) =
            (log @ [Call_fn attempt] @ (if cb then [Call_onRetry attempt err] else [])
                 @ [Sleep (if b then d * 2 ^ nat (attempt - 1) else d)]) @ rest"
          by blast
        then show ?thesis
          using retry_loop_fail_more [of fn attempt err n d b cb lastError log] Inl True by simp
      next
        case False
        then have "attempt = n" using le by simp
        then show ?thesis using retry_loop_fail_last [of fn n err d b cb lastError log] Inl by simp
      qed
    qed
  qed
qed

lemma retry_loop_first_call:
  assumes "a \<le> n"
  shows "\<exists>rest. fst (retry_loop fn n d b cb a le log) = log @ Call_fn a # rest"
proof (cases "fn a")
  case (Inr v)
  then show ?thesis using assms retry_loop_success [of fn a v n d b cb le log] by simp
next
  case (Inl err)
  show ?thesis
  proof (cases "a < n")
    case True
    obtain rest where "fst (retry_loop fn n d b cb (a + 1) (Some err)
          (log @ [Call_fn a] @ (if cb then [Call_onRetry a err] else [])
                  @ [Sleep (if b then d * 2 ^ nat (a - 1) else d)])) =
        (log @ [Call_fn a] @ (if cb then [Call_onRetry a err] else [])
                  @ [Sleep (if b then d * 2 ^ nat (a - 1) else d)]) @ rest"
      using retry_loop_log_prefix by blast
    then show ?thesis
      using retry_loop_fail_more [of fn a err n d b cb le log] Inl True by simp
  next
    case False
    then have "a = n" using assms by simp
    then show ?thesis using retry_loop_fail_last [of fn n err d b cb le log] Inl by simp
  qed
qed

text \<open>
  Claim C2 at a supplied delay of \<open>0\<close> with backoff disabled: the first attempt fails,
  and the run suspends for \<open>1000\<close> milliseconds, not for \<open>0\<close>, before the second
  attempt, because \<open>options.delay || 1000\<close> replaces a supplied \<open>0\<close> by the default.
\<close>

theorem retry_zero_delay_waits_default:
  "retry (\<lambda>j. if j = 1 then Inl (Foreign ()) else Inr (5::nat))
     \<lparr> attempts = Some 2, delay = Some 0, backoff = Some False, onRetry = False \<rparr> =
   ([Call_fn 1, Sleep 1000, Call_fn 2], Inr 5)"
  by (simp add: retry_def or_default_def retry_loop.simps)

text \<open>
  The failed attempts of a run, in terms of what \<open>retry\<close> reads from its options. Let
  \<open>n\<close> be the number of attempts and \<open>d\<close> the base delay after the defaults are
  applied. If the attempts \<open>1, \<dots>, k\<close> fail, with errors \<open>e 1, \<dots>, e k\<close>, and
  \<open>k < n\<close>, so that more attempts remain after each of them, then the run starts with,
  for each of these attempts in turn: the call of \<open>fn\<close>, then \<open>onRetry j (e j)\<close> if the
  callback is supplied, then a suspension of \<open>d * 2^(j-1)\<close> milliseconds when backoff is
  enabled and of \<open>d\<close> milliseconds when it is disabled; attempt \<open>k + 1\<close> follows. For
  a supplied delay other than \<open>0\<close>, \<open>d\<close> is that delay.
\<close>

lemma retry_failed_attempt_onRetry_then_wait:
  fixes fn :: "int \<Rightarrow> 'x error + 'a"
  assumes "n = or_default (attempts options) 3"
    and "d = or_default (delay options) 1000"
    and "0 \<le> k" and "k < n"
    and "\<forall>j\<in>{1..k}. fn j = Inl (e j)"
  shows "\<exists>rest. fst (retry fn options) =
           concat (map (\<lambda>j. [Call_fn j]
                              @ (if onRetry options then [Call_onRetry j (e j)] else [])
                              @ [Sleep (if backoff options = Some False then d
                                        else d * 2 ^ nat (j - 1))])
                    [1..k])
           @ Call_fn (k + 1) # rest"
proof -
  let ?b = "case backoff options of Some False \<Rightarrow> False | _ \<Rightarrow> True"
  have b: "?b = (backoff options \<noteq> Some False)"
    by (simp split: option.splits bool.splits)
  have round: "(\<lambda>j. [Call_fn j] @ (if onRetry options then [Call_onRetry j (e j)] else [])
                   @ [Sleep (if backoff options = Some False then d else d * 2 ^ nat (j - 1))])
      = failed_round d ?b (onRetry options) e"
    by (auto simp: b)
  have unroll: "retry_loop fn n d ?b (onRetry options) 1 None [] =
      retry_loop fn n d ?b (onRetry options) (k + 1) (if k < 1 then None else Some (e k))
        ([] @ concat (map (failed_round d ?b (onRetry options) e) [1..k]))"
  proof (cases "k < 1")
    case True
    then have "k = 0" using assms(3) by simp
    then show ?thesis by simp
  next
    case False
    then show ?thesis
      using assms(4,5)
        retry_loop_failures [of 1 k fn e n d ?b "onRetry options" None "[]"]
      by simp
  qed
  obtain rest where "fst (retry_loop fn n d ?b (onRetry options) (k + 1)
        (if k < 1 then None else Some (e k))
        ([] @ concat (map (failed_round d ?b (onRetry options) e) [1..k]))) =
      ([] @ concat (map (failed_round d ?b (onRetry options) e) [1..k])) @ Call_fn (k + 1) # rest"
    using retry_loop_first_call [of "k + 1" n fn d ?b "onRetry options"] assms(4) by fastforce
  then show ?thesis
    unfolding retry_def assms(1) [symmetric] assms(2) [symmetric] round
    using unroll by auto
qed

lemma retry_failed_attempt_onRetry_then_wait_example:
  "(3::int) = or_default (attempts \<lparr> attempts = Some 3, delay = Some 100, backoff = Some True, onRetry = True \<rparr>) 3
   \<and> (100::int) = or_default (delay \<lparr> attempts = Some 3, delay = Some 100, backoff = Some True, onRetry = True \<rparr>) 1000
   \<and> (\<exists>rest. fst (retry (\<lambda>j. if j = 3 then Inr (42::nat) else Inl (Foreign j))
                    \<lparr> attempts = Some 3, delay = Some 100, backoff = Some True, onRetry = True \<rparr>) =
          [Call_fn 1, Call_onRetry 1 (Foreign 1), Sleep 100,
           Call_fn 2, Call_onRetry 2 (Foreign 2), Sleep 200, Call_fn 3] @ rest)"
  using retry_failed_attempt_onRetry_then_wait
    [of 3 "\<lparr> attempts = Some 3, delay = Some 100, backoff = Some True, onRetry = True \<rparr>"
        100 2 "\<lambda>j. if j = 3 then Inr (42::nat) else Inl (Foreign j)" Foreign]
  by (simp add: or_default_def upto.simps)

text \<open>The run of the example in full: two callbacks, two suspensions, three calls.\<close>

lemma retry_backoff_example:
  "retry (\<lambda>j. if j = 3 then Inr (42::nat) else Inl (Foreign j))
     \<lparr> attempts = Some 3, delay = Some 100, backoff = Some True, onRetry = True \<rparr> =
   ([Call_fn 1, Call_onRetry 1 (Foreign 1), Sleep 100,
     Call_fn 2, Call_onRetry 2 (Foreign 2), Sleep 200, Call_fn 3], Inr 42)"
  by (simp add: retry_def or_default_def retry_loop.simps)

text \<open>
  Claim C4 at a supplied base delay of \<open>0\<close> with backoff enabled: attempts \<open>1\<close> and
  \<open>2\<close> fail while more attempts remain. The callback is invoked with the attempt number
  and the error before each suspension, but the suspensions last \<open>1000\<close> and \<open>2000\<close>
  milliseconds, not \<open>0 * 2^0 = 0\<close> and \<open>0 * 2^1 = 0\<close>: \<open>options.delay || 1000\<close> has
  replaced the supplied \<open>0\<close> by the default before the loop computes the wait.
\<close>

theorem retry_zero_delay_backoff_waits_default:
  "retry (\<lambda>j. if j = 3 then Inr (42::nat) else Inl (Foreign j))
     \<lparr> attempts = Some 3, delay = Some 0, backoff = Some True, onRetry = True \<rparr> =
   ([Call_fn 1, Call_onRetry 1 (Foreign 1), Sleep 1000,
     Call_fn 2, Call_onRetry 2 (Foreign 2), Sleep 2000, Call_fn 3], Inr 42)"
  by (simp add: retry_def or_default_def retry_loop.simps)

text \<open>
  Claim C5. If all \<open>n \<ge> 1\<close> attempts fail, with errors \<open>e 1, \<dots>, e n\<close>, then \<open>retry\<close>
  fails with exactly \<open>e n\<close>, the error of the last attempt, and the run is: the attempts
  \<open>1, \<dots>, n - 1\<close>, each with its callback and its suspension, and then the call of
  attempt \<open>n\<close> alone, with no callback and no suspension after it.
\<close>

theorem retry_exhausted_last_error:
  fixes fn :: "int \<Rightarrow> 'x error + 'a"
  assumes "n = or_default (attempts options) 3"
    and "d = or_default (delay options) 1000"
    and "1 \<le> n"
    and "\<forall>j\<in>{1..n}. fn j = Inl (e j)"
  shows "retry fn options =
           (concat (map (\<lambda>j. [Call_fn j]
                               @ (if onRetry options then [Call_onRetry j (e j)] else [])
                               @ [Sleep (if backoff options = Some False then d
                                         else d * 2 ^ nat (j - 1))])
                     [1..n - 1])
              @ [Call_fn n],
            Inl (Some (e n)))"
proof -
  let ?b = "case backoff options of Some False \<Rightarrow> False | _ \<Rightarrow> True"
  have b: "?b = (backoff options \<noteq> Some False)"
    by (simp split: option.splits bool.splits)
  have round: "(\<lambda>j. [Call_fn j] @ (if onRetry options then [Call_onRetry j (e j)] else [])
                   @ [Sleep (if backoff options = Some False then d else d * 2 ^ nat (j - 1))])
      = failed_round d ?b (onRetry options) e"
    by (auto simp: b)
  have unroll: "retry_loop fn n d ?b (onRetry options) 1 None [] =
      retry_loop fn n d ?b (onRetry options) n (if n - 1 < 1 then None else Some (e (n - 1)))
        ([] @ concat (map (failed_round d ?b (onRetry options) e) [1..n - 1]))"
  proof (cases "n - 1 < 1")
    case True
    then have "n = 1" using assms(3) by simp
    then show ?thesis by simp
  next
    case False
    then show ?thesis
      using assms(4)
        retry_loop_failures [of 1 "n - 1" fn e n d ?b "onRetry options" None "[]"]
      by simp
  qed
  have "fn n = Inl (e n)" using assms(3,4) by simp
  then show ?thesis
    unfolding retry_def assms(1) [symmetric] assms(2) [symmetric] round unroll
    by (simp add: retry_loop_fail_last)
qed

theorem retry_exhausted_last_error_witness:
  "(1::int) \<le> or_default (attempts \<lparr> attempts = Some 2, delay = None, backoff = None, onRetry = True \<rparr>) 3
   \<and> retry (\<lambda>j. Inl (Foreign ''E'') :: string error + nat)
        \<lparr> attempts = Some 2, delay = None, backoff = None, onRetry = True \<rparr> =
       ([Call_fn 1, Call_onRetry 1 (Foreign ''E''), Sleep 1000, Call_fn 2], Inl (Some (Foreign ''E'')))"
  using retry_exhausted_last_error
    [of 2 "\<lparr> attempts = Some 2, delay = None, backoff = None, onRetry = True \<rparr>"
        1000 "\<lambda>j. Inl (Foreign ''E'') :: string error + nat" "\<lambda>j. Foreign ''E''"]
  by (simp add: or_default_def)

section \<open>Properties of withTimeout\<close>

lemma timeout_steps_settled:
  assumes "timeoutId s = None" and "returned s = Some out"
  shows "foldl (timeout_step msg) s evs = s"
  using assms
proof (induction evs)
  case Nil
  then show ?case by simp
next
  case (Cons ev evs)
  have "timeout_step msg s ev = s"
    using Cons.prems by (cases ev) simp_all
  then show ?case using Cons by simp
qed

text \<open>
  Claim C9. When the wrapped task settles before the timer fires, with success or with
  failure, the promise returned by \<open>withTimeout\<close> settles with the very outcome of the
  task, so no timeout failure is introduced, and the timer is cleared at that moment;
  nothing that happens later (\<open>evs\<close>) changes either.
\<close>

theorem withTimeout_task_settles_first:
  fixes out :: "'x error + 'a"
  shows "returned (run_timeout ms msg (Task_settles out # evs)) = Some out
       \<and> timeoutId (run_timeout ms msg (Task_settles out # evs)) = None
       \<and> timeoutId (run_timeout ms msg [Task_settles out]) = None"
proof -
  let ?s = "timeout_step msg (withTimeout ms) (Task_settles out)"
  have s: "timeoutId ?s = None" "returned ?s = Some out"
    by (simp_all add: withTimeout_def)
  then have "foldl (timeout_step msg) ?s evs = ?s"
    by (rule timeout_steps_settled)
  then show ?thesis
    using s by (simp add: run_timeout_def)
qed

theorem withTimeout_task_settles_first_witness:
  "returned (run_timeout 100 ''Operation timed out'' [Task_settles (Inr (7::nat)), Timer_fires]
      :: (unit, nat) timeout_state) = Some (Inr 7)
   \<and> timeoutId (run_timeout 100 ''Operation timed out'' [Task_settles (Inr (7::nat)), Timer_fires]
      :: (unit, nat) timeout_state) = None"
  using withTimeout_task_settles_first
    [of 100 "''Operation timed out''" "Inr (7::nat) :: unit error + nat" "[Timer_fires]"]
  by simp

lemma timeout_deadline_first_example:
  "returned (run_timeout 100 ''Operation timed out'' [Timer_fires, Task_settles (Inr (1::nat))]
      :: (unit, nat) timeout_state) =
     Some (Inl (AppError \<lparr> message = ''Operation timed out'', code = ''TIMEOUT'',
        statusCode = 408, isOperational = True \<rparr>))"
  by (simp add: run_timeout_def withTimeout_def timeout_error_def new_AppError_def
      or_default_def or_default_str_def)

section \<open>Properties of batch\<close>

lemma groups_Nil [simp]: "groups n [] = []"
  by (simp add: groups.simps)

lemma groups_Cons:
  "0 < n \<Longrightarrow> xs \<noteq> [] \<Longrightarrow> groups n xs = take n xs # groups n (drop n xs)"
  by (simp add: groups.simps [of n xs])

lemma groups_eq_Nil: "0 < n \<Longrightarrow> groups n xs = [] \<longleftrightarrow> xs = []"
  by (cases "xs = []") (simp_all add: groups_Cons)

lemma concat_groups: "0 < n \<Longrightarrow> concat (groups n xs) = xs"
proof (induction n xs rule: groups.induct)
  case (1 n xs)
  show ?case
  proof (cases "xs = []")
    case True
    then show ?thesis by simp
  next
    case False
    then show ?thesis using 1 by (simp add: groups_Cons)
  qed
qed

lemma groups_lengths:
  "0 < n \<Longrightarrow> \<forall>g\<in>set (groups n xs). 0 < length g \<and> length g \<le> n"
proof (induction n xs rule: groups.induct)
  case (1 n xs)
  show ?case
  proof (cases "xs = []")
    case True
    then show ?thesis by simp
  next
    case False
    have "groups n xs = take n xs # groups n (drop n xs)"
      using False "1.prems" by (rule groups_Cons [rotated])
    moreover have "\<forall>g\<in>set (groups n (drop n xs)). 0 < length g \<and> length g \<le> n"
      using "1.IH" False "1.prems" by simp
    ultimately show ?thesis using False "1.prems" by simp
  qed
qed

lemma groups_full_but_last:
  "0 < n \<Longrightarrow> \<forall>g\<in>set (butlast (groups n xs)). length g = n"
proof (induction n xs rule: groups.induct)
  case (1 n xs)
  show ?case
  proof (cases "xs = []")
    case True
    then show ?thesis by simp
  next
    case False
    have g: "groups n xs = take n xs # groups n (drop n xs)"
      using False "1.prems" by (rule groups_Cons [rotated])
    have IH: "\<forall>g\<in>set (butlast (groups n (drop n xs))). length g = n"
      using "1.IH" False "1.prems" by simp
    show ?thesis
    proof (cases "drop n xs = []")
      case True
      then show ?thesis using g by simp
    next
      case ne: False
      then have "groups n (drop n xs) \<noteq> []"
        using "1.prems" groups_eq_Nil [of n "drop n xs"] by simp
      moreover have "length (take n xs) = n" using ne by simp
      ultimately show ?thesis using g IH by simp
    qed
  qed
qed

lemma js_slice_group:
  assumes "0 \<le> i" and "i < int (length xs)" and "1 \<le> sz"
  shows "js_slice xs i (i + sz) = take (nat sz) (drop (nat i) xs)"
proof -
  have "take (nat (min (i + sz) (int (length xs)) - i)) (drop (nat i) xs)
      = take (nat sz) (drop (nat i) xs)"
  proof (cases "i + sz \<le> int (length xs)")
    case True
    then show ?thesis by (simp add: min_def)
  next
    case False
    then have "length (drop (nat i) xs) \<le> nat sz" "length (drop (nat i) xs) \<le> nat (int (length xs) - i)"
      using assms by auto
    then show ?thesis using False by (simp add: min_def)
  qed
  then show ?thesis
    using assms by (simp add: js_slice_def Let_def max_def min_def)
qed

lemma batch_loop_run_groups:
  assumes "1 \<le> sz" and "0 \<le> i"
  shows "batch_loop items processor sz dl i results log =
           Some (run_groups processor dl (groups (nat sz) (drop (nat i) items)) results log)"
  using assms(2)
proof (induction "length items - nat i" arbitrary: i results log rule: less_induct)
  case less
  show ?case
  proof (cases "i < int (length items)")
    case False
    then have "drop (nat i) items = []" using less.prems by simp
    then show ?thesis
      using False by (simp add: batch_loop.simps [of items processor sz dl i results log])
  next
    case True
    let ?g = "take (nat sz) (drop (nat i) items)"
    have ne: "drop (nat i) items \<noteq> []" using True less.prems by simp
    have slice: "js_slice items i (i + sz) = ?g"
      using js_slice_group [OF less.prems True assms(1)] .
    have dd: "drop (nat sz) (drop (nat i) items) = drop (nat (i + sz)) items"
      using less.prems assms(1) by (simp add: nat_add_distrib add.commute)
    have gr: "groups (nat sz) (drop (nat i) items) = ?g # groups (nat sz) (drop (nat (i + sz)) items)"
      using groups_Cons [OF _ ne, of "nat sz"] assms(1) dd by simp
    have more: "(groups (nat sz) (drop (nat (i + sz)) items) \<noteq> []) = (i + sz < int (length items))"
      using groups_eq_Nil [of "nat sz" "drop (nat (i + sz)) items"] assms(1) less.prems by auto
    have IH: "\<And>results' log'. batch_loop items processor sz dl (i + sz) results' log' =
        Some (run_groups processor dl (groups (nat sz) (drop (nat (i + sz)) items)) results' log')"
      using less.hyps [of "i + sz"] True less.prems assms(1) by auto
    show ?thesis
      by (auto simp: batch_loop.simps [of items processor sz dl i results log] True slice gr
          IH more Let_def split: sum.splits)
  qed
qed

lemma first_rejection_None:
  "first_rejection ps = None \<longleftrightarrow> (\<forall>p\<in>set ps. \<not> isl (snd p))"
  by (induction ps rule: first_rejection.induct) (auto split: option.splits)

lemma first_rejection_Some:
  "first_rejection ps = Some (t, e) \<Longrightarrow>
     (t, Inl e) \<in> set ps \<and> (\<forall>t' e'. (t', Inl e') \<in> set ps \<longrightarrow> t \<le> t')"
proof (induction ps arbitrary: t e rule: first_rejection.induct)
  case 1
  then show ?case by simp
next
  case (2 t0 v ps)
  then show ?case by auto
next
  case (3 t0 e0 ps)
  show ?case
  proof (cases "first_rejection ps")
    case None
    then have "\<forall>p\<in>set ps. \<not> isl (snd p)" by (simp add: first_rejection_None)
    then have "\<forall>t' e'. (t', Inl e') \<notin> set ps" by force
    then show ?thesis using "3.prems" None by auto
  next
    case (Some a)
    obtain t1 e1 where a: "a = (t1, e1)" by (cases a)
    have IH: "(t1, Inl e1) \<in> set ps \<and> (\<forall>t' e'. (t', Inl e') \<in> set ps \<longrightarrow> t1 \<le> t')"
      using "3.IH" Some a by simp
    show ?thesis
    proof (cases "t1 < t0")
      case True
      then have "t = t1" "e = e1" using "3.prems" Some a by simp_all
      then show ?thesis using IH True by auto
    next
      case False
      then have "t = t0" "e = e0" using "3.prems" Some a by simp_all
      then show ?thesis using IH False by fastforce
    qed
  qed
qed

lemma fulfilled_map:
  "\<forall>x\<in>set xs. snd (processor x) = Inr (f x) \<Longrightarrow> fulfilled (map processor xs) = map f xs"
proof (induction xs)
  case Nil
  then show ?case by simp
next
  case (Cons x xs)
  obtain t where "processor x = (t, Inr (f x))"
    using Cons.prems by (cases "processor x") simp
  then show ?case using Cons by simp
qed

lemma promise_all_success:
  assumes "\<forall>x\<in>set xs. snd (processor x) = Inr (f x)"
  shows "promise_all (map processor xs) = Inr (map f xs)"
proof -
  have "first_rejection (map processor xs) = None"
    using assms by (simp add: first_rejection_None)
  then show ?thesis
    using assms by (simp add: promise_all_def fulfilled_map)
qed

lemma promise_all_Inl:
  "promise_all ps = Inl e \<longleftrightarrow> (\<exists>t. first_rejection ps = Some (t, e))"
  by (auto simp: promise_all_def split: option.splits)

lemma promise_all_Inr:
  "promise_all ps = Inr rs \<Longrightarrow> \<forall>p\<in>set ps. \<not> isl (snd p)"
  by (auto simp: promise_all_def first_rejection_None split: option.splits)

lemma batch_trace_Cons:
  "gs \<noteq> [] \<Longrightarrow>
     batch_trace dl (g # gs) = Process g # (if dl > 0 then [Pause dl] else []) @ batch_trace dl gs"
  by (cases gs) simp_all

lemma run_groups_success:
  assumes "\<forall>x\<in>set (concat gs). snd (processor x) = Inr (f x)"
  shows "run_groups processor dl gs results log =
           (log @ batch_trace dl gs, Inr (results @ map f (concat gs)))"
  using assms
proof (induction gs arbitrary: results log)
  case Nil
  then show ?case by simp
next
  case (Cons g gs)
  have g: "promise_all (map processor g) = Inr (map f g)"
    using Cons.prems by (intro promise_all_success) simp
  have rest: "\<forall>x\<in>set (concat gs). snd (processor x) = Inr (f x)"
    using Cons.prems by simp
  show ?case
  proof (cases "gs = []")
    case True
    then show ?thesis using g by simp
  next
    case False
    then show ?thesis
      using g Cons.IH [OF rest] by (simp add: batch_trace_Cons)
  qed
qed

lemma run_groups_failure:
  assumes "\<exists>x\<in>set (concat gs). isl (snd (processor x))"
  shows "\<exists>gs1 g gs2 t e. gs = gs1 @ g # gs2
           \<and> (\<forall>z\<in>set (concat gs1). \<not> isl (snd (processor z)))
           \<and> first_rejection (map processor g) = Some (t, e)
           \<and> run_groups processor dl gs results log = (log @ batch_trace dl (gs1 @ [g]), Inl e)"
  using assms
proof (induction gs arbitrary: results log)
  case Nil
  then show ?case by simp
next
  case (Cons g gs)
  show ?case
  proof (cases "promise_all (map processor g)")
    case (Inl e)
    then obtain t where "first_rejection (map processor g) = Some (t, e)"
      by (auto simp: promise_all_Inl)
    then have "g # gs = [] @ g # gs \<and> (\<forall>z\<in>set (concat []). \<not> isl (snd (processor z)))
        \<and> first_rejection (map processor g) = Some (t, e)
        \<and> run_groups processor dl (g # gs) results log = (log @ batch_trace dl ([] @ [g]), Inl e)"
      using Inl by simp
    then show ?thesis by blast
  next
    case (Inr rs)
    then have ok: "\<forall>z\<in>set g. \<not> isl (snd (processor z))"
      using promise_all_Inr [of "map processor g" rs] by simp
    then have later: "\<exists>x\<in>set (concat gs). isl (snd (processor x))"
      using Cons.prems by auto
    then have ne: "gs \<noteq> []" by auto
    let ?log = "if dl > 0 \<and> gs \<noteq> [] then log @ [Process g] @ [Pause dl] else log @ [Process g]"
    from Cons.IH [OF later, of "results @ rs" ?log]
    obtain gs1 g' gs2 t e where IH: "gs = gs1 @ g' # gs2"
        "\<forall>z\<in>set (concat gs1). \<not> isl (snd (processor z))"
        "first_rejection (map processor g') = Some (t, e)"
        "run_groups processor dl gs (results @ rs) ?log = (?log @ batch_trace dl (gs1 @ [g']), Inl e)"
      by blast
    have "g # gs = (g # gs1) @ g' # gs2 \<and> (\<forall>z\<in>set (concat (g # gs1)). \<not> isl (snd (processor z)))
        \<and> first_rejection (map processor g') = Some (t, e)
        \<and> run_groups processor dl (g # gs) results log =
            (log @ batch_trace dl ((g # gs1) @ [g']), Inl e)"
      using IH ok Inr ne by (auto simp: batch_trace_Cons)
    then show ?thesis by blast
  qed
qed

text \<open>
  Claim C6. Let \<open>sz \<ge> 1\<close> be the group size and \<open>dl\<close> the delay that \<open>batch\<close> reads
  from its options. If the processor succeeds on every item, with \<open>f x\<close> the value for
  item \<open>x\<close>, then \<open>batch\<close> returns, and what it returns is one result per item in the
  order of the items, \<open>map f items\<close>; the processor is invoked group by group on the
  contiguous groups of \<open>sz\<close> items (the last possibly smaller), which together are the
  input, each group being awaited before the next one starts.
\<close>

theorem batch_results_in_input_order:
  fixes processor :: "'a \<Rightarrow> nat \<times> ('e + 'r)"
  assumes "sz = or_default (batch_size options) 10"
    and "dl = or_default (batch_delay options) 0"
    and "1 \<le> sz"
    and "\<forall>x\<in>set items. snd (processor x) = Inr (f x)"
  shows "batch items processor options =
           Some (batch_trace dl (groups (nat sz) items), Inr (map f items))
         \<and> concat (groups (nat sz) items) = items
         \<and> (\<forall>g\<in>set (groups (nat sz) items). 0 < length g \<and> length g \<le> nat sz)
         \<and> (\<forall>g\<in>set (butlast (groups (nat sz) items)). length g = nat sz)
         \<and> length (map f items) = length items"
proof -
  have c: "concat (groups (nat sz) items) = items"
    using assms(3) by (simp add: concat_groups)
  have sizes: "\<forall>g\<in>set (groups (nat sz) items). 0 < length g \<and> length g \<le> nat sz"
    "\<forall>g\<in>set (butlast (groups (nat sz) items)). length g = nat sz"
    using assms(3) groups_lengths [of "nat sz" items] groups_full_but_last [of "nat sz" items]
    by simp_all
  have "batch items processor options =
      Some (run_groups processor dl (groups (nat sz) items) [] [])"
    unfolding batch_def assms(1) [symmetric] assms(2) [symmetric]
    using batch_loop_run_groups [OF assms(3), of 0 items processor dl "[]" "[]"] by simp
  moreover have "run_groups processor dl (groups (nat sz) items) [] [] =
      ([] @ batch_trace dl (groups (nat sz) items),
       Inr ([] @ map f (concat (groups (nat sz) items))))"
    using assms(4) c by (intro run_groups_success) simp
  ultimately show ?thesis using c sizes by simp
qed

theorem batch_results_in_input_order_witness:
  "batch [1, 2, 3, 4, 5, 6, 7 :: nat] (\<lambda>x. (0, Inr (2 * x) :: unit + nat))
     \<lparr> batch_size = Some 3, batch_delay = None, concurrency = None \<rparr> =
   Some ([Process [1, 2, 3], Process [4, 5, 6], Process [7]], Inr [2, 4, 6, 8, 10, 12, 14])"
  using batch_results_in_input_order
    [of 3 "\<lparr> batch_size = Some 3, batch_delay = None, concurrency = None \<rparr>" 0
        "[1, 2, 3, 4, 5, 6, 7 :: nat]" "\<lambda>x. (0, Inr (2 * x) :: unit + nat)" "\<lambda>x. 2 * x"]
  by (simp add: or_default_def groups.simps)

text \<open>
  Claim C7. Let \<open>sz \<ge> 1\<close>. If the processor fails on some item of the input, then
  \<open>batch\<close> fails: its result is an error \<open>e\<close> and no list of results. The groups
  before some group \<open>g\<close> succeed on all their items, \<open>e\<close> is the error of an item
  \<open>y\<close> of \<open>g\<close>, the one whose promise rejects first in \<open>g\<close>, and the log ends with the
  processing of \<open>g\<close>: no later group is processed. When all failing items fail with the
  same error \<open>e0\<close> (in particular when only one item fails), \<open>e\<close> is \<open>e0\<close>.
\<close>

theorem batch_fails_with_first_rejection:
  fixes processor :: "'a \<Rightarrow> nat \<times> ('e + 'r)"
  assumes "sz = or_default (batch_size options) 10"
    and "dl = or_default (batch_delay options) 0"
    and "1 \<le> sz"
    and "x \<in> set items" and "snd (processor x) = Inl e0"
  shows "\<exists>gs1 g gs2 y t e.
           groups (nat sz) items = gs1 @ g # gs2
         \<and> (\<forall>z\<in>set (concat gs1). \<exists>v. snd (processor z) = Inr v)
         \<and> y \<in> set g \<and> processor y = (t, Inl e)
         \<and> (\<forall>z\<in>set g. \<forall>t' e'. processor z = (t', Inl e') \<longrightarrow> t \<le> t')
         \<and> batch items processor options = Some (batch_trace dl (gs1 @ [g]), Inl e)
         \<and> ((\<forall>z\<in>set items. \<forall>e'. snd (processor z) = Inl e' \<longrightarrow> e' = e0) \<longrightarrow> e = e0)"
proof -
  have c: "concat (groups (nat sz) items) = items"
    using assms(3) by (simp add: concat_groups)
  have run: "batch items processor options =
      Some (run_groups processor dl (groups (nat sz) items) [] [])"
    unfolding batch_def assms(1) [symmetric] assms(2) [symmetric]
    using batch_loop_run_groups [OF assms(3), of 0 items processor dl "[]" "[]"] by simp
  have "isl (snd (processor x))"
    using assms(5) by simp
  then have "\<exists>x\<in>set (concat (groups (nat sz) items)). isl (snd (processor x))"
    using assms(4) c by auto
  from run_groups_failure [OF this, of dl "[]" "[]"]
  obtain gs1 g gs2 t e where G: "groups (nat sz) items = gs1 @ g # gs2"
      "\<forall>z\<in>set (concat gs1). \<not> isl (snd (processor z))"
      "first_rejection (map processor g) = Some (t, e)"
      "run_groups processor dl (groups (nat sz) items) [] [] = ([] @ batch_trace dl (gs1 @ [g]), Inl e)"
    by blast
  have fr: "(t, Inl e) \<in> set (map processor g)"
      "\<forall>t' e'. (t', Inl e') \<in> set (map processor g) \<longrightarrow> t \<le> t'"
    using first_rejection_Some [OF G(3)] by simp_all
  then obtain y where y: "y \<in> set g" "processor y = (t, Inl e)" by auto
  have earliest: "\<forall>z\<in>set g. \<forall>t' e'. processor z = (t', Inl e') \<longrightarrow> t \<le> t'"
    using fr(2) by force
  have ok: "\<forall>z\<in>set (concat gs1). \<exists>v. snd (processor z) = Inr v"
  proof
    fix z assume "z \<in> set (concat gs1)"
    then have "\<not> isl (snd (processor z))" using G(2) by blast
    then show "\<exists>v. snd (processor z) = Inr v" by (cases "snd (processor z)") simp_all
  qed
  have "set g \<subseteq> set items"
    using c G(1) by (metis concat.simps(2) concat_append set_append Un_upper1 Un_upper2 subset_trans)
  then have "y \<in> set items" using y(1) by auto
  then have same: "(\<forall>z\<in>set items. \<forall>e'. snd (processor z) = Inl e' \<longrightarrow> e' = e0) \<longrightarrow> e = e0"
    using y(2) by force
  have "batch items processor options = Some (batch_trace dl (gs1 @ [g]), Inl e)"
    using run G(4) by simp
  then show ?thesis using G(1) ok y earliest same by blast
qed

theorem batch_fails_with_first_rejection_witness:
  "\<exists>gs1 g e.
      batch [1, 2, 3, 4, 5 :: nat] (\<lambda>x. if x = 4 then (0, Inl ''E'') else (0, Inr x))
         \<lparr> batch_size = Some 2, batch_delay = Some 50, concurrency = None \<rparr> =
       Some (batch_trace 50 (gs1 @ [g]), Inl e)
    \<and> e = ''E''"
proof -
  let ?p = "\<lambda>x::nat. if x = 4 then (0::nat, Inl ''E'' :: string + nat) else (0, Inr x)"
  let ?o = "\<lparr> batch_size = Some 2, batch_delay = Some 50, concurrency = None \<rparr>"
  have "\<exists>gs1 g gs2 y t e.
           groups (nat 2) [1, 2, 3, 4, 5] = gs1 @ g # gs2
         \<and> (\<forall>z\<in>set (concat gs1). \<exists>v. snd (?p z) = Inr v)
         \<and> y \<in> set g \<and> ?p y = (t, Inl e)
         \<and> (\<forall>z\<in>set g. \<forall>t' e'. ?p z = (t', Inl e') \<longrightarrow> t \<le> t')
         \<and> batch [1, 2, 3, 4, 5] ?p ?o = Some (batch_trace 50 (gs1 @ [g]), Inl e)
         \<and> ((\<forall>z\<in>set [1, 2, 3, 4, 5]. \<forall>e'. snd (?p z) = Inl e' \<longrightarrow> e' = ''E'') \<longrightarrow> e = ''E'')"
    by (rule batch_fails_with_first_rejection [of 2 ?o 50 4 _ ?p "''E''"])
      (simp_all add: or_default_def)
  then obtain gs1 g e where
      b: "batch [1, 2, 3, 4, 5] ?p ?o = Some (batch_trace 50 (gs1 @ [g]), Inl e)"
      and imp: "(\<forall>z\<in>set [1, 2, 3, 4, 5]. \<forall>e'. snd (?p z) = Inl e' \<longrightarrow> e' = ''E'') \<longrightarrow> e = ''E''"
    by blast
  have "\<forall>z\<in>set [1, 2, 3, 4, 5]. \<forall>e'. snd (?p z) = Inl e' \<longrightarrow> e' = ''E''"
    by simp
  then have "e = ''E''" using imp by blast
  then show ?thesis using b by blast
qed

lemma batch_failure_example:
  "batch [1, 2, 3, 4, 5 :: nat] (\<lambda>x. if x = 4 then (0, Inl ''E'') else (0, Inr x))
         \<lparr> batch_size = Some 2, batch_delay = Some 50, concurrency = None \<rparr> =
       Some ([Process [1, 2], Pause 50, Process [3, 4]], Inl ''E'')"
  by (simp add: batch_def or_default_def batch_loop.simps js_slice_def promise_all_def)

text \<open>
  Claim C10. On the empty list \<open>batch\<close> returns the empty list of results, and its log
  is empty: the processor is not invoked and there is no suspension, whatever the
  processor and the options are.
\<close>

theorem batch_empty_input:
  "batch [] processor options = Some ([], Inr [])"
  by (simp add: batch_def batch_loop.simps)

theorem batch_empty_input_witness:
  "batch ([] :: nat list) (\<lambda>x. (0, Inl ''E'' :: string + nat))
     \<lparr> batch_size = Some (- 1), batch_delay = Some 500, concurrency = Some 2 \<rparr> = Some ([], Inr [])"
  using batch_empty_input
    [of "\<lambda>x. (0, Inl ''E'' :: string + nat)"
        "\<lparr> batch_size = Some (- 1), batch_delay = Some 500, concurrency = Some 2 \<rparr>"]
  by simp

section \<open>Properties of rateLimit\<close>

lemma processQueue_admit:
  assumes "queue s = entry # rest" and "callsMade s < maxCalls"
  shows "processQueue maxCalls s =
           s\<lparr> queue := rest, callsMade := callsMade s + 1, issued := issued s @ [entry],
              in_flight := in_flight s @ [fst entry] \<rparr>"
  using assms by (simp add: processQueue_def)

lemma processQueue_idle:
  assumes "queue s = [] \<or> maxCalls \<le> callsMade s"
  shows "processQueue maxCalls s = s"
  using assms by (auto simp: processQueue_def)

lemma processQueue_cases:
  obtains (idle) "processQueue maxCalls s = s"
  | (admit) entry rest where "queue s = entry # rest" and "callsMade s < maxCalls"
      and "processQueue maxCalls s =
           s\<lparr> queue := rest, callsMade := callsMade s + 1, issued := issued s @ [entry],
              in_flight := in_flight s @ [fst entry] \<rparr>"
proof (cases "queue s = [] \<or> maxCalls \<le> callsMade s")
  case True
  then show ?thesis using idle processQueue_idle by blast
next
  case False
  then obtain entry rest where "queue s = entry # rest" by (cases "queue s") auto
  then show ?thesis using False admit processQueue_admit [of s entry rest maxCalls] by auto
qed

lemma processQueue_counts:
  "int (length (issued (processQueue maxCalls s))) - callsMade (processQueue maxCalls s) =
     int (length (issued s)) - callsMade s"
  by (cases rule: processQueue_cases [of maxCalls s]) simp_all

lemma processQueue_interval [simp]:
  "interval (processQueue maxCalls s) = interval s"
  by (cases rule: processQueue_cases [of maxCalls s]) simp_all

lemma processQueue_bound:
  "callsMade s \<le> maxCalls \<Longrightarrow> callsMade (processQueue maxCalls s) \<le> maxCalls"
  by (cases rule: processQueue_cases [of maxCalls s]) simp_all



text \<open>Outside a tick, the counter moves with the invocations issued.\<close>

lemma limiter_step_counts:
  assumes "ev \<noteq> Tick"
  shows "int (length (issued (limiter_step maxCalls s ev))) - callsMade (limiter_step maxCalls s ev) =
           int (length (issued s)) - callsMade s"
proof (cases ev)
  case (Call args)
  then show ?thesis
    using processQueue_counts
      [of maxCalls "s\<lparr> queue := queue s @ [(arrived s, args)], arrived := Suc (arrived s), interval := True \<rparr>"]
      processQueue_counts
      [of maxCalls "s\<lparr> queue := queue s @ [(arrived s, args)], arrived := Suc (arrived s) \<rparr>"]
    by (simp add: dispatch_def Let_def)
next
  case Tick
  then show ?thesis using assms by simp
next
  case (Completes c out)
  then show ?thesis
    using processQueue_counts
      [of maxCalls "s\<lparr> in_flight := remove1 c (in_flight s), delivered := delivered s @ [(c, out)] \<rparr>"]
    by (simp add: resume_def Let_def)
qed

lemma limiter_steps_counts:
  assumes "Tick \<notin> set evs"
  shows "int (length (issued (foldl (limiter_step maxCalls) s evs)))
           - callsMade (foldl (limiter_step maxCalls) s evs) =
         int (length (issued s)) - callsMade s"
  using assms
proof (induction evs arbitrary: s)
  case Nil
  then show ?case by simp
next
  case (Cons ev evs)
  then have "ev \<noteq> Tick" "Tick \<notin> set evs" by auto
  then show ?case
    using Cons.IH [of "limiter_step maxCalls s ev"] limiter_step_counts [of ev maxCalls s] by simp
qed

lemma processQueue_inv:
  assumes "limiter_inv maxCalls s" and "interval s"
  shows "limiter_inv maxCalls (processQueue maxCalls s)"
  using assms
  by (cases rule: processQueue_cases [of maxCalls s]) (auto simp: limiter_inv_def)

lemma limiter_step_inv:
  assumes "limiter_inv maxCalls s"
  shows "limiter_inv maxCalls (limiter_step maxCalls s ev)"
proof (cases ev)
  case (Call args)
  let ?s2 = "s\<lparr> queue := queue s @ [(arrived s, args)], arrived := Suc (arrived s),
      interval := True \<rparr>"
  have "limiter_inv maxCalls ?s2" "interval ?s2"
    using assms by (auto simp: limiter_inv_def)
  then have "limiter_inv maxCalls (processQueue maxCalls ?s2)"
    by (rule processQueue_inv)
  moreover have "dispatch maxCalls args s = processQueue maxCalls ?s2"
    by (cases s) (auto simp: dispatch_def Let_def)
  ultimately show ?thesis using Call by simp
next
  case Tick
  show ?thesis
  proof (cases "interval s")
    case True
    then have "limiter_inv maxCalls (s\<lparr> callsMade := 0 \<rparr>)"
      using assms by (simp add: limiter_inv_def)
    then show ?thesis
      using Tick True processQueue_inv [of maxCalls "s\<lparr> callsMade := 0 \<rparr>"]
      by (simp add: resetCalls_def)
  next
    case False
    then show ?thesis using Tick assms by simp
  qed
next
  case (Completes c out)
  show ?thesis
  proof (cases "c \<in> set (in_flight s)")
    case True
    then have i: "interval s" using assms by (auto simp: limiter_inv_def)
    then have "limiter_inv maxCalls
        (s\<lparr> in_flight := remove1 c (in_flight s), delivered := delivered s @ [(c, out)] \<rparr>)"
      using assms by (simp add: limiter_inv_def)
    then show ?thesis
      using Completes True i processQueue_inv
        [of maxCalls "s\<lparr> in_flight := remove1 c (in_flight s), delivered := delivered s @ [(c, out)] \<rparr>"]
      by (simp add: resume_def Let_def)
  next
    case False
    then show ?thesis using Completes assms by simp
  qed
qed

lemma limiter_steps_inv:
  "limiter_inv maxCalls s \<Longrightarrow> limiter_inv maxCalls (foldl (limiter_step maxCalls) s evs)"
  by (induction evs arbitrary: s) (simp_all add: limiter_step_inv)

lemma run_limiter_inv:
  "0 \<le> maxCalls \<Longrightarrow> limiter_inv maxCalls (run_limiter maxCalls evs)"
  unfolding run_limiter_def
  by (rule limiter_steps_inv) (simp add: limiter_inv_def rateLimit_def)

lemma tick_counts:
  assumes "limiter_inv maxCalls s"
  shows "int (length (issued (limiter_step maxCalls s Tick))) =
           int (length (issued s)) + callsMade (limiter_step maxCalls s Tick)"
proof (cases "interval s")
  case True
  then show ?thesis
    using processQueue_counts [of maxCalls "s\<lparr> callsMade := 0 \<rparr>"]
    by (simp add: resetCalls_def)
next
  case False
  then show ?thesis using assms by (simp add: limiter_inv_def)
qed

lemma tick_value:
  assumes "interval s"
  shows "callsMade (limiter_step maxCalls s Tick) =
           (if queue s = [] \<or> maxCalls \<le> 0 then 0 else 1)"
  using assms by (auto simp: resetCalls_def processQueue_def split: list.splits)



text \<open>
  Claim C8. For \<open>maxCalls \<ge> 0\<close> and every sequence of events, \<open>callsMade\<close> never
  exceeds \<open>maxCalls\<close>. A tick restarts the count: from a tick up to the next one (the
  events \<open>evs'\<close> contain no tick), \<open>callsMade\<close> is exactly the number of invocations of
  \<open>fn\<close> issued since that tick, the tick's own drain included. Right after the tick it is
  \<open>0\<close>, or \<open>1\<close> when the tick's drain has admitted the head of the queue.
\<close>

theorem callsMade_bounded_and_reset_by_tick:
  fixes evs evs' :: "('args, 'x, 'a) limiter_event list"
  assumes "0 \<le> maxCalls" and "Tick \<notin> set evs'"
  shows "callsMade (run_limiter maxCalls evs) \<le> maxCalls
       \<and> int (length (issued (run_limiter maxCalls (evs @ Tick # evs')))) =
           int (length (issued (run_limiter maxCalls evs)))
             + callsMade (run_limiter maxCalls (evs @ Tick # evs'))
       \<and> callsMade (run_limiter maxCalls (evs @ [Tick])) =
           (if queue (run_limiter maxCalls evs) = [] \<or> maxCalls \<le> 0 then 0 else 1)"
proof -
  let ?s = "run_limiter maxCalls evs"
  have inv: "limiter_inv maxCalls ?s"
    using assms(1) by (rule run_limiter_inv)
  then have bound: "callsMade ?s \<le> maxCalls"
    by (simp add: limiter_inv_def)
  have tick: "int (length (issued (limiter_step maxCalls ?s Tick))) =
      int (length (issued ?s)) + callsMade (limiter_step maxCalls ?s Tick)"
    using inv by (rule tick_counts)
  have "int (length (issued (foldl (limiter_step maxCalls) (limiter_step maxCalls ?s Tick) evs')))
        - callsMade (foldl (limiter_step maxCalls) (limiter_step maxCalls ?s Tick) evs') =
      int (length (issued (limiter_step maxCalls ?s Tick)))
        - callsMade (limiter_step maxCalls ?s Tick)"
    using assms(2) by (rule limiter_steps_counts)
  then have window: "int (length (issued (run_limiter maxCalls (evs @ Tick # evs')))) =
      int (length (issued ?s)) + callsMade (run_limiter maxCalls (evs @ Tick # evs'))"
    using tick by (simp add: run_limiter_def)
  have reset: "callsMade (run_limiter maxCalls (evs @ [Tick])) =
      (if queue ?s = [] \<or> maxCalls \<le> 0 then 0 else 1)"
  proof (cases "interval ?s")
    case True
    then show ?thesis
      using tick_value [of ?s maxCalls] by (simp add: run_limiter_def)
  next
    case False
    then have "callsMade ?s = 0" "queue ?s = []"
      using inv by (simp_all add: limiter_inv_def)
    then show ?thesis using False by (simp add: run_limiter_def)
  qed
  show ?thesis using bound window reset by simp
qed

theorem callsMade_bounded_and_reset_by_tick_witness:
  "callsMade (run_limiter 2 [Call ''a'', Call ''b'', Call ''c'', Call ''d'']
      :: (string, unit, nat) limiter) \<le> 2
   \<and> int (length (issued (run_limiter 2
        ([Call ''a'', Call ''b'', Call ''c'', Call ''d''] @ Tick # [Completes 0 (Inr 0)])
        :: (string, unit, nat) limiter))) =
      int (length (issued (run_limiter 2 [Call ''a'', Call ''b'', Call ''c'', Call ''d'']
        :: (string, unit, nat) limiter)))
      + callsMade (run_limiter 2
        ([Call ''a'', Call ''b'', Call ''c'', Call ''d''] @ Tick # [Completes 0 (Inr 0)])
        :: (string, unit, nat) limiter)
   \<and> callsMade (run_limiter 2 ([Call ''a'', Call ''b'', Call ''c'', Call ''d''] @ [Tick])
      :: (string, unit, nat) limiter) = 1"
  using callsMade_bounded_and_reset_by_tick
    [of 2 "[Completes 0 (Inr 0)] :: (string, unit, nat) limiter_event list"
        "[Call ''a'', Call ''b'', Call ''c'', Call ''d'']"]
  by (simp add: run_limiter_def rateLimit_def dispatch_def processQueue_def)




end
